theory Spec2Isabelle
  imports Complex_Main "HOL-Library.Multiset"
begin

section \<open>Data model (src/utils/gameLogic.ts, lines 3-11)\<close>

text \<open>
  The module \<open>constants\<close> (\<open>TILE_TYPES\<close>, \<open>TILE_SIZE\<close>, \<open>SLOT_SIZE\<close>) is imported by the
  sources but its values are not part of them. Every function below that reads one of
  these constants takes it as a parameter of the same name.

  JavaScript numbers are double precision floats. The model computes exactly: numbers
  that hold integers (\<open>z\<close>, the level, the generator state, time stamps) are \<open>int\<close>, pixel
  coordinates and the tile size are \<open>rat\<close>. Doubles are exact on integers below \<open>2^53\<close> and
  on the fractions \<open>seed / 2^32\<close> that the generator returns; theorem
  \<open>seededRandom_recurrence\<close> gives the bound that keeps the generator inside that range.
  The quotients \<open>availableWidth / gridStep\<close> of the position sampling are taken as exact
  rationals (the tile size is assumed positive); no property proved below depends on
  the sampled positions.

  Tile ids are unique in the data model. The theorems on the resolver and on the slot
  logic assume pairwise distinct ids; lemma \<open>generateLevel_ids_distinct\<close> shows that every
  generated level has them, and \<open>handleTileClick_ids\<close> and \<open>matchEffect_ids\<close> that the
  game never changes an id.
\<close>

datatype Status = Board | Slot | Matching | Cleared

record TileData =
  tile_id :: string
  tile_type :: string
  tile_x :: rat
  tile_y :: rat
  tile_z :: int
  tile_status :: Status
  addedAt :: "int option"

section \<open>Occlusion resolver (src/utils/gameLogic.ts, lines 13-43)\<close>

definition checkOverlap :: "rat \<Rightarrow> TileData \<Rightarrow> TileData \<Rightarrow> bool" where
  "checkOverlap TILE_SIZE t1 t2 \<longleftrightarrow>
     tile_x t1 < tile_x t2 + TILE_SIZE \<and>
     tile_x t1 + TILE_SIZE > tile_x t2 \<and>
     tile_y t1 < tile_y t2 + TILE_SIZE \<and>
     tile_y t1 + TILE_SIZE > tile_y t2"

text \<open>\<open>Array.prototype.findIndex\<close>: the first index whose element satisfies the
  predicate, \<open>-1\<close> when there is none.\<close>

fun findIndexFrom :: "('a \<Rightarrow> bool) \<Rightarrow> int \<Rightarrow> 'a list \<Rightarrow> int" where
  "findIndexFrom p i [] = -1"
| "findIndexFrom p i (a # as) = (if p a then i else findIndexFrom p (i + 1) as)"

definition findIndex :: "('a \<Rightarrow> bool) \<Rightarrow> 'a list \<Rightarrow> int" where
  "findIndex p as = findIndexFrom p 0 as"

text \<open>The \<open>for\<close> loop of \<open>isTileClickable\<close>, entered at index \<open>i\<close> with the elements
  \<open>allTiles[i..]\<close> still to be visited; \<open>continue\<close> and falling through both go on
  with \<open>i + 1\<close>, \<open>return false\<close> ends the scan.\<close>

fun clickableLoop :: "rat \<Rightarrow> TileData \<Rightarrow> int \<Rightarrow> int \<Rightarrow> TileData list \<Rightarrow> bool" where
  "clickableLoop TILE_SIZE tile tileIndex i [] = True"
| "clickableLoop TILE_SIZE tile tileIndex i (other # rest) =
     (if tile_id other = tile_id tile \<or> tile_status other \<noteq> Board
      then clickableLoop TILE_SIZE tile tileIndex (i + 1) rest
      else if (tile_z other > tile_z tile \<or> (tile_z other = tile_z tile \<and> i > tileIndex))
              \<and> checkOverlap TILE_SIZE tile other
      then False
      else clickableLoop TILE_SIZE tile tileIndex (i + 1) rest)"

definition isTileClickable :: "rat \<Rightarrow> TileData \<Rightarrow> TileData list \<Rightarrow> bool" where
  "isTileClickable TILE_SIZE tile allTiles =
     (if tile_status tile \<noteq> Board then False
      else let tileIndex = findIndex (\<lambda>t. tile_id t = tile_id tile) allTiles
           in clickableLoop TILE_SIZE tile tileIndex 0 allTiles)"

text \<open>The blocking relation of the resolver, in the words of the specification: \<open>other\<close>,
  at position \<open>j\<close>, blocks \<open>tile\<close>, at position \<open>i\<close>, when it has board status, lies in a
  higher layer or in the same layer at a later position, and the two boxes overlap.\<close>

definition blocks :: "rat \<Rightarrow> TileData list \<Rightarrow> nat \<Rightarrow> nat \<Rightarrow> bool" where
  "blocks TILE_SIZE allTiles j i \<longleftrightarrow>
     tile_status (allTiles ! j) = Board \<and>
     (tile_z (allTiles ! j) > tile_z (allTiles ! i) \<or>
      (tile_z (allTiles ! j) = tile_z (allTiles ! i) \<and> j > i)) \<and>
     checkOverlap TILE_SIZE (allTiles ! i) (allTiles ! j)"

section \<open>Seeded generator (src/utils/gameLogic.ts, lines 45-56)\<close>

record SeededRandom =
  seed :: int

definition new_SeededRandom :: "int \<Rightarrow> SeededRandom" where
  "new_SeededRandom s = \<lparr>seed = s\<rparr>"

text \<open>The remainder operator \<open>%\<close> of JavaScript on integers: the result has the sign of
  the dividend.\<close>

definition js_rem :: "int \<Rightarrow> int \<Rightarrow> int" where
  "js_rem a b = (if a < 0 then - ((- a) mod \<bar>b\<bar>) else a mod \<bar>b\<bar>)"

text \<open>\<open>next()\<close> updates the state and returns the new state divided by \<open>2^32\<close>; the model
  returns the value together with the updated generator.\<close>

definition SeededRandom_next :: "SeededRandom \<Rightarrow> rat \<times> SeededRandom" where
  "SeededRandom_next rng =
     (let s = js_rem (seed rng * 1664525 + 1013904223) 4294967296
      in (of_int s / 4294967296, rng\<lparr>seed := s\<rparr>))"

section \<open>Level generator (src/utils/gameLogic.ts, lines 58-136)\<close>

text \<open>\<open>xs.slice(0, e)\<close>: a negative end counts from the end of the array.\<close>

definition js_slice0 :: "'a list \<Rightarrow> int \<Rightarrow> 'a list" where
  "js_slice0 xs e = (if e < 0 then take (nat (int (length xs) + e)) xs else take (nat e) xs)"

text \<open>Lines 67-71.\<close>

definition numSets :: "int \<Rightarrow> int" where
  "numSets level =
     (let n = 4;
          n = (if level = 2 then 15 else n);
          n = (if level > 2 then 15 + (level - 2) * 5 else n)
      in min n 60)"

text \<open>Lines 78-81: one draw per set, the drawn type pushed three times. The index
  \<open>floor (u * length)\<close> lies inside a non-empty palette for every \<open>u\<close> in \<open>[0, 1)\<close>
  (lemma \<open>palette_index_in_range\<close>).\<close>

fun fillTypes :: "nat \<Rightarrow> string list \<Rightarrow> SeededRandom \<Rightarrow> string list
    \<Rightarrow> string list \<times> SeededRandom" where
  "fillTypes 0 availableTypes rng typesToPlace = (typesToPlace, rng)"
| "fillTypes (Suc n) availableTypes rng typesToPlace =
     (let (u, rng') = SeededRandom_next rng;
          ty = availableTypes ! nat \<lfloor>u * of_nat (length availableTypes)\<rfloor>
      in fillTypes n availableTypes rng' (typesToPlace @ [ty, ty, ty]))"

text \<open>Lines 84-87: the shuffle, \<open>i\<close> running from \<open>length - 1\<close> down to \<open>1\<close>.\<close>

fun shuffleLoop :: "nat \<Rightarrow> string list \<Rightarrow> SeededRandom \<Rightarrow> string list \<times> SeededRandom" where
  "shuffleLoop 0 typesToPlace rng = (typesToPlace, rng)"
| "shuffleLoop (Suc k) typesToPlace rng =
     (let i = Suc k;
          (u, rng') = SeededRandom_next rng;
          j = nat \<lfloor>u * of_nat (i + 1)\<rfloor>
      in shuffleLoop k (typesToPlace[i := typesToPlace ! j, j := typesToPlace ! i]) rng')"

text \<open>Decimal rendering of a loop counter inside the template string of line 123.\<close>

definition digit_char :: "nat \<Rightarrow> char" where
  "digit_char d = ''0123456789'' ! d"

fun string_of_nat :: "nat \<Rightarrow> string" where
  "string_of_nat n =
     (if n < 10 then [digit_char n] else string_of_nat (n div 10) @ [digit_char (n mod 10)])"

declare string_of_nat.simps [simp del]

text \<open>Lines 106-120: the \<open>do ... while (attempts < 30)\<close> loop, entered with the current
  value of \<open>attempts\<close>. It returns the last sampled position and the generator.\<close>

function samplePosition :: "int \<Rightarrow> rat \<Rightarrow> rat \<Rightarrow> rat \<Rightarrow> rat \<Rightarrow> TileData list \<Rightarrow> nat
    \<Rightarrow> SeededRandom \<Rightarrow> (rat \<times> rat) \<times> SeededRandom" where
  "samplePosition z layerMargin availableWidth availableHeight gridStep tiles attempts rng =
     (let (u1, rng1) = SeededRandom_next rng;
          gridX = \<lfloor>u1 * (availableWidth / gridStep)\<rfloor>;
          (u2, rng2) = SeededRandom_next rng1;
          gridY = \<lfloor>u2 * (availableHeight / gridStep)\<rfloor>;
          x = layerMargin + of_int gridX * gridStep;
          y = layerMargin + of_int gridY * gridStep;
          samePosInCurrent =
            list_ex (\<lambda>t. tile_z t = z \<and> tile_x t = x \<and> tile_y t = y) tiles;
          samePosInBelow =
            (z > 0 \<and> list_ex (\<lambda>t. tile_z t = z - 1 \<and> tile_x t = x \<and> tile_y t = y) tiles)
      in if \<not> samePosInCurrent \<and> \<not> samePosInBelow then ((x, y), rng2)
         else if attempts + 1 < 30
         then samplePosition z layerMargin availableWidth availableHeight gridStep tiles
                (attempts + 1) rng2
         else ((x, y), rng2))"
  by pat_completeness auto
termination
  by (relation "measure (\<lambda>(z, m, w, h, g, ts, attempts, rng). 30 - attempts)") auto

declare samplePosition.simps [simp del]

text \<open>Lines 100-132: the inner \<open>for\<close> loop over \<open>i\<close>, on the state
  \<open>(tiles, rng, typeIndex)\<close>; the first branch is the \<open>break\<close> of line 101.\<close>

function layerLoop :: "rat \<Rightarrow> string list \<Rightarrow> nat \<Rightarrow> int \<Rightarrow> nat
    \<Rightarrow> TileData list \<times> SeededRandom \<times> nat \<Rightarrow> TileData list \<times> SeededRandom \<times> nat" where
  "layerLoop TILE_SIZE typesToPlace z tilesPerLayer i (tiles, rng, typeIndex) =
     (if int i < tilesPerLayer then
        if typeIndex \<ge> length typesToPlace then (tiles, rng, typeIndex)
        else
          let boardWidth = 320; boardHeight = 480; gridStep = TILE_SIZE / 2;
              layerMargin = 20 + of_nat z * 5;
              availableWidth = boardWidth - TILE_SIZE - layerMargin * 2;
              availableHeight = boardHeight - TILE_SIZE - layerMargin * 2;
              ((x, y), rng') =
                samplePosition (int z) layerMargin availableWidth availableHeight gridStep
                  tiles 0 rng;
              tile = \<lparr>tile_id = ''tile-'' @ string_of_nat z @ ''-'' @ string_of_nat i @ ''-''
                        @ string_of_nat typeIndex,
                      tile_type = typesToPlace ! typeIndex,
                      tile_x = x, tile_y = y, tile_z = int z,
                      tile_status = Board, addedAt = None\<rparr>
          in layerLoop TILE_SIZE typesToPlace z tilesPerLayer (i + 1)
               (tiles @ [tile], rng', typeIndex + 1)
      else (tiles, rng, typeIndex))"
  by pat_completeness auto
termination
  by (relation "measure (\<lambda>(TS, tys, z, tpl, i, st). nat (tpl - int i))") auto

declare layerLoop.simps [simp del]

text \<open>Lines 95-133: the outer \<open>for\<close> loop over the layers \<open>z\<close>.\<close>

function layersLoop :: "rat \<Rightarrow> string list \<Rightarrow> int \<Rightarrow> int \<Rightarrow> nat
    \<Rightarrow> TileData list \<times> SeededRandom \<times> nat \<Rightarrow> TileData list \<times> SeededRandom \<times> nat" where
  "layersLoop TILE_SIZE typesToPlace layers tilesPerLayer z st =
     (if int z < layers
      then layersLoop TILE_SIZE typesToPlace layers tilesPerLayer (z + 1)
             (layerLoop TILE_SIZE typesToPlace z tilesPerLayer 0 st)
      else st)"
  by pat_completeness auto
termination
  by (relation "measure (\<lambda>(TS, tys, layers, tpl, z, st). nat (layers - int z))") auto

declare layersLoop.simps [simp del]

text \<open>Lines 61-135: the body of \<open>generateLevel\<close>, run with the generator object that
  line 59 has created.\<close>

definition generateLevel_body :: "string list \<Rightarrow> rat \<Rightarrow> int \<Rightarrow> SeededRandom \<Rightarrow> TileData list" where
  "generateLevel_body TILE_TYPES TILE_SIZE level rng =
     (let numTypes = min (3 + level * 2) (int (length TILE_TYPES));
          availableTypes = js_slice0 TILE_TYPES numTypes;
          (typesToPlace, rng) = fillTypes (nat (numSets level)) availableTypes rng [];
          (typesToPlace, rng) = shuffleLoop (length typesToPlace - 1) typesToPlace rng;
          layers = min (3 + level * 2) 12;
          tilesPerLayer = \<lceil>(of_nat (length typesToPlace) :: rat) / of_int layers\<rceil>;
          (tiles, rng, typeIndex) =
            layersLoop TILE_SIZE typesToPlace layers tilesPerLayer 0 ([], rng, 0)
      in tiles)"

definition generateLevel :: "string list \<Rightarrow> rat \<Rightarrow> int \<Rightarrow> TileData list" where
  "generateLevel TILE_TYPES TILE_SIZE level =
     (let rng = new_SeededRandom (level + 1000)
      in generateLevel_body TILE_TYPES TILE_SIZE level rng)"

text \<open>The last field of a generated id: the characters after its last hyphen.\<close>

definition lastField :: "string \<Rightarrow> string" where
  "lastField s = rev (takeWhile (\<lambda>c. c \<noteq> CHR ''-'') (rev s))"

text \<open>The state of the layout loops is well formed when \<open>typeIndex\<close> entries of
  \<open>typesToPlace\<close> have been placed, in order, as board tiles whose ids end in their
  position \<open>0, 1, ...\<close> in the sequence.\<close>

definition placed :: "string list \<Rightarrow> TileData list \<Rightarrow> nat \<Rightarrow> bool" where
  "placed typesToPlace tiles typeIndex \<longleftrightarrow>
     typeIndex \<le> length typesToPlace \<and>
     map tile_type tiles = take typeIndex typesToPlace \<and>
     list_all (\<lambda>t. tile_status t = Board) tiles \<and>
     map (\<lambda>t. lastField (tile_id t)) tiles = map string_of_nat [0..<typeIndex]"

text \<open>The sequence \<open>typesToPlace\<close> after line 87, as a function of the catalogue, the
  level and the generator: the filled sequence, shuffled.\<close>

definition shuffledTypes :: "string list \<Rightarrow> int \<Rightarrow> SeededRandom \<Rightarrow> string list" where
  "shuffledTypes TILE_TYPES level rng =
     (let (filled, rng1) =
            fillTypes (nat (numSets level))
              (js_slice0 TILE_TYPES (min (3 + level * 2) (int (length TILE_TYPES)))) rng []
      in fst (shuffleLoop (length filled - 1) filled rng1))"

section \<open>Game state and slot logic (src/App.tsx)\<close>

datatype GameState = Start | Playing | Won | Lost | Loading_video

text \<open>
  The counting objects \<open>typeCount\<close> (lines 54-57, 140-143, 186-189) are records from type
  label to count that start empty. A JavaScript object keeps its string keys in insertion
  order, so the model is an association list: \<open>obj_get\<close> reads a key (\<open>None\<close> for
  \<open>undefined\<close>), \<open>obj_set\<close> overwrites the value of a present key in place and appends an
  absent key. Type labels are symbols of the catalogue; they are assumed not to be names
  of members of \<open>Object.prototype\<close>.
\<close>

fun obj_get :: "(string \<times> 'v) list \<Rightarrow> string \<Rightarrow> 'v option" where
  "obj_get [] k = None"
| "obj_get ((k', v) # obj) k = (if k' = k then Some v else obj_get obj k)"

fun obj_set :: "(string \<times> 'v) list \<Rightarrow> string \<Rightarrow> 'v \<Rightarrow> (string \<times> 'v) list" where
  "obj_set [] k v = [(k, v)]"
| "obj_set ((k', v') # obj) k v = (if k' = k then (k, v) # obj else (k', v') # obj_set obj k v)"

text \<open>\<open>acc[t.type] = (acc[t.type] || 0) + 1\<close>.\<close>

definition countType :: "(string \<times> nat) list \<Rightarrow> TileData \<Rightarrow> (string \<times> nat) list" where
  "countType acc t =
     obj_set acc (tile_type t) ((case obj_get acc (tile_type t) of None \<Rightarrow> 0 | Some c \<Rightarrow> c) + 1)"

definition typeCountOf :: "TileData list \<Rightarrow> (string \<times> nat) list" where
  "typeCountOf ts = foldl countType [] ts"

text \<open>The count recorded for a key, 0 for a key that is absent.\<close>

definition countOr0 :: "(string \<times> nat) list \<Rightarrow> string \<Rightarrow> nat" where
  "countOr0 acc k = (case obj_get acc k of None \<Rightarrow> 0 | Some c \<Rightarrow> c)"


text \<open>\<open>Object.keys\<close>: keys that are array indices (canonical decimal numerals below
  \<open>2^32 - 1\<close>) come first, in ascending numeric order, then the other keys in insertion
  order.\<close>

definition is_digit :: "char \<Rightarrow> bool" where
  "is_digit c \<longleftrightarrow> c \<in> set ''0123456789''"

definition int_of_digits :: "string \<Rightarrow> int" where
  "int_of_digits s = foldl (\<lambda>a c. 10 * a + (of_char c - 48)) 0 s"

definition isArrayIndex :: "string \<Rightarrow> bool" where
  "isArrayIndex s \<longleftrightarrow>
     s \<noteq> [] \<and> list_all is_digit s \<and> (s = ''0'' \<or> hd s \<noteq> CHR ''0'') \<and>
     int_of_digits s < 4294967295"

definition objectKeys :: "(string \<times> 'v) list \<Rightarrow> string list" where
  "objectKeys obj =
     (let ks = map fst obj
      in sort_key int_of_digits (filter isArrayIndex ks) @ filter (\<lambda>k. \<not> isArrayIndex k) ks)"

text \<open>\<open>(a.addedAt || 0)\<close>.\<close>

definition addedAtOr0 :: "TileData \<Rightarrow> int" where
  "addedAtOr0 t = (case addedAt t of None \<Rightarrow> 0 | Some v \<Rightarrow> v)"


text \<open>Lines 109-131: the click handler. The result is the tile collection after the
  call; \<open>prev\<close> is the latest collection, handed to the updater by \<open>setTiles\<close>, and \<open>now\<close>
  the value of \<open>Date.now()\<close>.\<close>

definition handleTileClick ::
    "int \<Rightarrow> rat \<Rightarrow> GameState \<Rightarrow> int \<Rightarrow> TileData \<Rightarrow> TileData list \<Rightarrow> TileData list" where
  "handleTileClick SLOT_SIZE TILE_SIZE gameState now tile prev =
     (if gameState \<noteq> Playing then prev
      else
        case find (\<lambda>t. tile_id t = tile_id tile) prev of
          None \<Rightarrow> prev
        | Some currentTile \<Rightarrow>
            if tile_status currentTile \<noteq> Board then prev
            else if \<not> isTileClickable TILE_SIZE currentTile prev then prev
            else
              let currentSlotCount = length (filter (\<lambda>t. tile_status t = Slot) prev)
              in if int currentSlotCount \<ge> SLOT_SIZE then prev
                 else map (\<lambda>t. if tile_id t = tile_id tile
                                then t\<lparr>tile_status := Slot, addedAt := Some now\<rparr> else t) prev)"

text \<open>Lines 134-160: the match detection effect up to its first \<open>setTiles\<close>, which is
  applied to the collection the effect was run for. \<open>if (matchedType)\<close> is false for
  \<open>undefined\<close> and for the empty string.\<close>

definition matchEffect :: "GameState \<Rightarrow> TileData list \<Rightarrow> TileData list" where
  "matchEffect gameState tiles =
     (if gameState \<noteq> Playing then tiles
      else
        let matchableInSlot = filter (\<lambda>t. tile_status t = Slot) tiles;
            typeCount = typeCountOf matchableInSlot
        in case find (\<lambda>ty. case obj_get typeCount ty of None \<Rightarrow> False | Some c \<Rightarrow> c \<ge> 3)
                  (objectKeys typeCount) of
             None \<Rightarrow> tiles
           | Some matchedType \<Rightarrow>
               if matchedType = [] then tiles
               else
                 let tilesOfThisType =
                       sort_key addedAtOr0
                         (filter (\<lambda>t. tile_type t = matchedType) matchableInSlot);
                     idsToMatch = map tile_id (take 3 tilesOfThisType)
                 in map (\<lambda>t. if tile_id t \<in> set idsToMatch
                              then t\<lparr>tile_status := Matching\<rparr> else t) tiles)"


text \<open>The number of slot tiles of one type, in the words of the specification.\<close>

definition slotCount :: "TileData list \<Rightarrow> string \<Rightarrow> nat" where
  "slotCount tiles ty = length (filter (\<lambda>t. tile_status t = Slot \<and> tile_type t = ty) tiles)"

section \<open>Example inputs\<close>

definition mkTile :: "string \<Rightarrow> string \<Rightarrow> rat \<Rightarrow> rat \<Rightarrow> int \<Rightarrow> Status \<Rightarrow> int option \<Rightarrow> TileData" where
  "mkTile i ty x y z st a =
     \<lparr>tile_id = i, tile_type = ty, tile_x = x, tile_y = y, tile_z = z,
      tile_status = st, addedAt = a\<rparr>"

text \<open>A board of three tiles of size 40: \<open>a\<close> and \<open>b\<close> share a footprint in layer 0,
  \<open>c\<close> lies apart in layer 1.\<close>

definition stackedBoard :: "TileData list" where
  "stackedBoard =
     [mkTile ''a'' ''A'' 0 0 0 Board None,
      mkTile ''b'' ''A'' 0 0 0 Board None,
      mkTile ''c'' ''B'' 100 100 1 Board None]"


text \<open>With a slot of capacity 7: six slot tiles without a triple and one free board tile
  of a fourth type, and the same collection after that tile was clicked at time 100.\<close>

definition lastSlotBoard :: "TileData list" where
  "lastSlotBoard =
     [mkTile ''s1'' ''A'' 0 0 0 Slot (Some 1),
      mkTile ''s2'' ''A'' 0 0 0 Slot (Some 2),
      mkTile ''s3'' ''B'' 0 0 0 Slot (Some 3),
      mkTile ''s4'' ''B'' 0 0 0 Slot (Some 4),
      mkTile ''s5'' ''C'' 0 0 0 Slot (Some 5),
      mkTile ''s6'' ''C'' 0 0 0 Slot (Some 6),
      mkTile ''b1'' ''D'' 0 0 0 Board None]"


section \<open>Properties of the resolver\<close>

lemma findIndexFrom_distinct:
  "distinct (map f as) \<Longrightarrow> k < length as \<Longrightarrow>
   findIndexFrom (\<lambda>t. f t = f (as ! k)) i as = i + int k"
proof (induction as arbitrary: i k)
  case Nil
  then show ?case by simp
next
  case (Cons a as)
  show ?case
  proof (cases k)
    case 0
    then show ?thesis by simp
  next
    case (Suc k')
    with Cons.prems have "as ! k' \<in> set as" "f a \<notin> f ` set as" by auto
    then have "f a \<noteq> f (as ! k')" by auto
    with Cons Suc show ?thesis by simp
  qed
qed

lemma findIndex_distinct:
  "distinct (map f as) \<Longrightarrow> k < length as \<Longrightarrow> findIndex (\<lambda>t. f t = f (as ! k)) as = int k"
  by (simp add: findIndex_def findIndexFrom_distinct)

lemma clickableLoop_iff:
  "clickableLoop TS tile tileIndex i rest \<longleftrightarrow>
     (\<forall>j < length rest.
        tile_id (rest ! j) \<noteq> tile_id tile \<and> tile_status (rest ! j) = Board \<and>
        (tile_z (rest ! j) > tile_z tile \<or>
         (tile_z (rest ! j) = tile_z tile \<and> i + int j > tileIndex))
        \<longrightarrow> \<not> checkOverlap TS tile (rest ! j))"
proof (induction rest arbitrary: i)
  case Nil
  then show ?case by simp
next
  case (Cons other rest)
  have split: "(\<forall>j < length (other # rest). P j) \<longleftrightarrow> P 0 \<and> (\<forall>j < length rest. P (Suc j))" for P
    by (auto simp: less_Suc_eq_0_disj)
  show ?case
    unfolding split by (simp add: Cons.IH add.assoc) blast
qed

lemma distinct_ids_other:
  assumes "distinct (map tile_id ts)" "i < length ts" "j < length ts"
  shows "tile_id (ts ! j) \<noteq> tile_id (ts ! i) \<longleftrightarrow> j \<noteq> i"
  using assms by (metis length_map nth_eq_iff_index_eq nth_map)

lemma isTileClickable_blocks:
  assumes "distinct (map tile_id ts)" "i < length ts"
  shows "isTileClickable TS (ts ! i) ts \<longleftrightarrow>
         tile_status (ts ! i) = Board \<and> \<not> (\<exists>j < length ts. j \<noteq> i \<and> blocks TS ts j i)"
proof (cases "tile_status (ts ! i) = Board")
  case False
  then show ?thesis by (simp add: isTileClickable_def)
next
  case True
  have "isTileClickable TS (ts ! i) ts \<longleftrightarrow> clickableLoop TS (ts ! i) (int i) 0 ts"
    using True assms by (simp add: isTileClickable_def findIndex_distinct)
  also have "\<dots> \<longleftrightarrow> \<not> (\<exists>j < length ts. j \<noteq> i \<and> blocks TS ts j i)"
    unfolding clickableLoop_iff blocks_def
    using distinct_ids_other [OF assms] by auto
  finally show ?thesis using True by simp
qed


text \<open>
  C3 (clickability resolution). In a tile collection with pairwise distinct ids (the
  identity of the data model), the tile at position \<open>i\<close> is not clickable when its status
  is not board; when it is board, it is clickable exactly when no tile at another
  position \<open>j\<close> blocks it, where blocking means: board status, a higher layer or the same
  layer and a higher position, and overlap of the two boxes under four strict
  inequalities. A tile of slot, matching or cleared status therefore never blocks.
\<close>

theorem isTileClickable_resolution:
  assumes "distinct (map tile_id allTiles)" and "i < length allTiles"
  shows "(tile_status (allTiles ! i) \<noteq> Board \<longrightarrow>
            \<not> isTileClickable TILE_SIZE (allTiles ! i) allTiles) \<and>
         (tile_status (allTiles ! i) = Board \<longrightarrow>
            (isTileClickable TILE_SIZE (allTiles ! i) allTiles \<longleftrightarrow>
             \<not> (\<exists>j < length allTiles. j \<noteq> i \<and>
                  tile_status (allTiles ! j) = Board \<and>
                  (tile_z (allTiles ! j) > tile_z (allTiles ! i) \<or>
                   (tile_z (allTiles ! j) = tile_z (allTiles ! i) \<and> j > i)) \<and>
                  tile_x (allTiles ! i) < tile_x (allTiles ! j) + TILE_SIZE \<and>
                  tile_x (allTiles ! i) + TILE_SIZE > tile_x (allTiles ! j) \<and>
                  tile_y (allTiles ! i) < tile_y (allTiles ! j) + TILE_SIZE \<and>
                  tile_y (allTiles ! i) + TILE_SIZE > tile_y (allTiles ! j))))"
  using isTileClickable_blocks [OF assms, of TILE_SIZE]
  unfolding blocks_def checkOverlap_def by simp

theorem isTileClickable_resolution_witness:
  "distinct (map tile_id stackedBoard) \<and> 0 < length stackedBoard \<and>
   tile_status (stackedBoard ! 0) = Board \<and>
   \<not> isTileClickable 40 (stackedBoard ! 0) stackedBoard"
proof -
  have d: "distinct (map tile_id stackedBoard)" and l: "0 < length stackedBoard"
    by (simp_all add: stackedBoard_def mkTile_def)
  have "\<exists>j < length stackedBoard. j \<noteq> 0 \<and>
          tile_status (stackedBoard ! j) = Board \<and>
          (tile_z (stackedBoard ! j) > tile_z (stackedBoard ! 0) \<or>
           (tile_z (stackedBoard ! j) = tile_z (stackedBoard ! 0) \<and> j > 0)) \<and>
          tile_x (stackedBoard ! 0) < tile_x (stackedBoard ! j) + 40 \<and>
          tile_x (stackedBoard ! 0) + 40 > tile_x (stackedBoard ! j) \<and>
          tile_y (stackedBoard ! 0) < tile_y (stackedBoard ! j) + 40 \<and>
          tile_y (stackedBoard ! 0) + 40 > tile_y (stackedBoard ! j)"
    by (rule exI [of _ 1]) (simp add: stackedBoard_def mkTile_def)
  moreover have "tile_status (stackedBoard ! 0) = Board"
    by (simp add: stackedBoard_def mkTile_def)
  ultimately show ?thesis
    using isTileClickable_resolution [OF d l, of 40] d l by blast
qed

text \<open>
  C10 (a board tile is always available). In a tile collection with pairwise distinct
  ids that holds a board tile, the board tile that is maximal in the lexicographic order
  on (layer, position) is clickable: a blocker would be strictly greater in that order.
\<close>

theorem board_tile_available:
  assumes "distinct (map tile_id allTiles)"
    and "\<exists>t \<in> set allTiles. tile_status t = Board"
  shows "\<exists>i < length allTiles.
           tile_status (allTiles ! i) = Board \<and>
           (\<forall>j < length allTiles. tile_status (allTiles ! j) = Board \<longrightarrow>
              tile_z (allTiles ! j) < tile_z (allTiles ! i) \<or>
              (tile_z (allTiles ! j) = tile_z (allTiles ! i) \<and> j \<le> i)) \<and>
           isTileClickable TILE_SIZE (allTiles ! i) allTiles"
proof -
  define B where "B = {i. i < length allTiles \<and> tile_status (allTiles ! i) = Board}"
  have finB: "finite B" unfolding B_def by simp
  from assms(2) have neB: "B \<noteq> {}"
    unfolding B_def by (auto simp: in_set_conv_nth)
  define Z where "Z = Max ((\<lambda>i. tile_z (allTiles ! i)) ` B)"
  have Z_in: "Z \<in> (\<lambda>i. tile_z (allTiles ! i)) ` B"
    unfolding Z_def using finB neB by (intro Max_in) auto
  have Z_max: "tile_z (allTiles ! j) \<le> Z" if "j \<in> B" for j
    unfolding Z_def using finB that by (intro Max_ge) auto
  define B' where "B' = {i \<in> B. tile_z (allTiles ! i) = Z}"
  have finB': "finite B'" unfolding B'_def using finB by simp
  have neB': "B' \<noteq> {}" unfolding B'_def using Z_in by auto
  define m where "m = Max B'"
  have m_in: "m \<in> B'" unfolding m_def using finB' neB' by (rule Max_in)
  have m_max: "j \<le> m" if "j \<in> B'" for j
    unfolding m_def using finB' that by (rule Max_ge)
  from m_in have m_len: "m < length allTiles" and m_board: "tile_status (allTiles ! m) = Board"
    and m_z: "tile_z (allTiles ! m) = Z"
    unfolding B'_def B_def by auto
  have maximal: "tile_z (allTiles ! j) < tile_z (allTiles ! m) \<or>
      (tile_z (allTiles ! j) = tile_z (allTiles ! m) \<and> j \<le> m)"
    if "j < length allTiles" "tile_status (allTiles ! j) = Board" for j
  proof -
    from that have jB: "j \<in> B" unfolding B_def by simp
    show ?thesis
    proof (cases "tile_z (allTiles ! j) = Z")
      case True
      with jB have "j \<in> B'" unfolding B'_def by simp
      with True m_z show ?thesis using m_max by simp
    next
      case False
      with Z_max [OF jB] m_z show ?thesis by simp
    qed
  qed
  have "\<not> (\<exists>j < length allTiles. j \<noteq> m \<and> blocks TILE_SIZE allTiles j m)"
    using maximal unfolding blocks_def by fastforce
  with m_board have "isTileClickable TILE_SIZE (allTiles ! m) allTiles"
    using isTileClickable_blocks [OF assms(1) m_len] by simp
  with m_len m_board maximal show ?thesis by blast
qed

theorem board_tile_available_witness:
  "distinct (map tile_id stackedBoard) \<and> (\<exists>t \<in> set stackedBoard. tile_status t = Board) \<and>
   (\<exists>i < length stackedBoard.
      tile_status (stackedBoard ! i) = Board \<and>
      isTileClickable 40 (stackedBoard ! i) stackedBoard)"
proof -
  have d: "distinct (map tile_id stackedBoard)"
    and b: "\<exists>t \<in> set stackedBoard. tile_status t = Board"
    by (simp_all add: stackedBoard_def mkTile_def)
  show ?thesis using board_tile_available [OF d b, of 40] d b by blast
qed

section \<open>Properties of the generator\<close>

lemma js_rem_nonneg: "0 \<le> a \<Longrightarrow> js_rem a 4294967296 = a mod 4294967296"
  by (simp add: js_rem_def)

lemma js_rem_bounds: "- 4294967296 < js_rem a 4294967296 \<and> js_rem a 4294967296 < 4294967296"
proof -
  have "0 \<le> (- a) mod 4294967296" "(- a) mod 4294967296 < 4294967296"
       "0 \<le> a mod 4294967296" "a mod 4294967296 < 4294967296"
    by simp_all
  then show ?thesis unfolding js_rem_def by (simp split: if_splits) linarith
qed

lemma next_seed: "seed (snd (SeededRandom_next rng)) = js_rem (seed rng * 1664525 + 1013904223) 4294967296"
  by (simp add: SeededRandom_next_def Let_def)

lemma next_value: "fst (SeededRandom_next rng) = of_int (seed (snd (SeededRandom_next rng))) / 4294967296"
  by (simp add: SeededRandom_next_def Let_def)

lemma next_less_one: "fst (SeededRandom_next rng) < 1"
proof -
  have "seed (snd (SeededRandom_next rng)) < 4294967296"
    unfolding next_seed using js_rem_bounds [of "seed rng * 1664525 + 1013904223"] by simp
  then have "(of_int (seed (snd (SeededRandom_next rng))) :: rat) < 4294967296"
    by (metis of_int_less_numeral_iff)
  then show ?thesis unfolding next_value by simp
qed

lemma next_nonneg:
  assumes "0 \<le> seed rng"
  shows "0 \<le> seed (snd (SeededRandom_next rng))" and "0 \<le> fst (SeededRandom_next rng)"
proof -
  from assms have "0 \<le> seed rng * 1664525 + 1013904223" by simp
  then show "0 \<le> seed (snd (SeededRandom_next rng))"
    unfolding next_seed by (simp add: js_rem_nonneg)
  then show "0 \<le> fst (SeededRandom_next rng)" unfolding next_value by simp
qed

lemma palette_index_in_range:
  assumes "0 \<le> u" "u < 1" "0 < n"
  shows "nat \<lfloor>u * of_nat n\<rfloor> < n"
proof -
  from assms have "u * of_nat n < of_nat n" by simp
  then have "\<lfloor>u * of_nat n\<rfloor> < int n"
    by (simp add: floor_less_iff)
  with assms show ?thesis by linarith
qed

lemma draw_le:
  assumes "u < 1"
  shows "nat \<lfloor>u * of_nat (Suc i)\<rfloor> \<le> i"
proof -
  have "u * of_nat (Suc i) < 1 * of_nat (Suc i)"
    using assms by (intro mult_strict_right_mono) (simp_all add: add_pos_nonneg)
  then have "\<lfloor>u * of_nat (Suc i)\<rfloor> < int (Suc i)" by (simp add: floor_less_iff)
  then show ?thesis by linarith
qed

lemma fillTypes_length:
  "length (fst (fillTypes n av rng acc)) = length acc + 3 * n"
  by (induction n arbitrary: rng acc) (simp_all add: Let_def split: prod.splits)

lemma fillTypes_seed:
  "0 \<le> seed rng \<Longrightarrow> 0 \<le> seed (snd (fillTypes n av rng acc))"
proof (induction n arbitrary: rng acc)
  case 0
  then show ?case by simp
next
  case (Suc n)
  obtain u rng' where nx: "SeededRandom_next rng = (u, rng')" by (cases "SeededRandom_next rng")
  with next_nonneg(1) [OF Suc.prems] have "0 \<le> seed rng'" by simp
  from Suc.IH [OF this] nx show ?case by (simp add: Let_def)
qed

lemma fillTypes_triples:
  "\<forall>ty. 3 dvd count (mset acc) ty \<Longrightarrow> 3 dvd count (mset (fst (fillTypes n av rng acc))) ty"
proof (induction n arbitrary: rng acc)
  case 0
  then show ?case by simp
next
  case (Suc n)
  obtain u rng' where nx: "SeededRandom_next rng = (u, rng')" by (cases "SeededRandom_next rng")
  define t where "t = av ! nat \<lfloor>u * of_nat (length av)\<rfloor>"
  have "count (mset (acc @ [t, t, t])) ty = count (mset acc) ty + (if t = ty then 3 else 0)" for ty
    by simp
  with Suc.prems have "\<forall>ty. 3 dvd count (mset (acc @ [t, t, t])) ty"
    by simp
  from Suc.IH [OF this] nx show ?case by (simp add: Let_def t_def)
qed

lemma fillTypes_from_palette:
  assumes "av \<noteq> []" "0 \<le> seed rng" "set acc \<subseteq> set av"
  shows "set (fst (fillTypes n av rng acc)) \<subseteq> set av"
  using assms
proof (induction n arbitrary: rng acc)
  case 0
  then show ?case by simp
next
  case (Suc n)
  obtain u rng' where nx: "SeededRandom_next rng = (u, rng')" by (cases "SeededRandom_next rng")
  with next_nonneg [OF Suc.prems(2)] next_less_one [of rng]
  have u: "0 \<le> u" "u < 1" and s: "0 \<le> seed rng'" by simp_all
  define t where "t = av ! nat \<lfloor>u * of_nat (length av)\<rfloor>"
  have "t \<in> set av" unfolding t_def
    using palette_index_in_range [OF u, of "length av"] Suc.prems(1) by simp
  with Suc.prems have "set (acc @ [t, t, t]) \<subseteq> set av" by simp
  from Suc.IH [OF Suc.prems(1) s this] nx show ?case by (simp add: Let_def t_def)
qed

lemma shuffleLoop_mset:
  "k < length xs \<Longrightarrow> mset (fst (shuffleLoop k xs rng)) = mset xs"
proof (induction k arbitrary: xs rng)
  case 0
  then show ?case by simp
next
  case (Suc k)
  obtain u rng' where nx: "SeededRandom_next rng = (u, rng')" by (cases "SeededRandom_next rng")
  with next_less_one [of rng] have "u < 1" by simp
  define j where "j = nat \<lfloor>u * of_nat (Suc k + 1)\<rfloor>"
  have "j \<le> Suc k" unfolding j_def using draw_le [OF \<open>u < 1\<close>, of "Suc k"] by simp
  with Suc.prems have j: "j < length xs" by simp
  define ys where "ys = xs[Suc k := xs ! j, j := xs ! Suc k]"
  have "mset ys = mset xs" unfolding ys_def using mset_swap [OF j Suc.prems] .
  moreover have "k < length ys" unfolding ys_def using Suc.prems by simp
  ultimately have "mset (fst (shuffleLoop k ys rng')) = mset xs" using Suc.IH by simp
  with nx show ?case by (simp add: Let_def j_def ys_def)
qed

lemma shuffle_mset: "mset (fst (shuffleLoop (length xs - 1) xs rng)) = mset xs"
proof (cases xs)
  case Nil
  then show ?thesis by simp
next
  case (Cons a as)
  then show ?thesis by (intro shuffleLoop_mset) simp
qed

lemma digit_char_all:
  "list_all (\<lambda>d. of_char (digit_char d) = (48 + int d) \<and> is_digit (digit_char d)) [0..<10]"
  by code_simp

lemma digit_char_value: "d < 10 \<Longrightarrow> of_char (digit_char d) = (48 + int d)"
  using digit_char_all by (simp add: list_all_iff)

lemma digit_char_digit: "d < 10 \<Longrightarrow> is_digit (digit_char d)"
  using digit_char_all by (simp add: list_all_iff)

lemma string_of_nat_small: "n < 10 \<Longrightarrow> string_of_nat n = [digit_char n]"
  by (subst string_of_nat.simps) simp

lemma string_of_nat_large:
  "\<not> n < 10 \<Longrightarrow> string_of_nat n = string_of_nat (n div 10) @ [digit_char (n mod 10)]"
  by (subst string_of_nat.simps) simp

lemma string_of_nat_digits: "list_all is_digit (string_of_nat n)"
proof (induction n rule: string_of_nat.induct)
  case (1 n)
  show ?case
  proof (cases "n < 10")
    case True
    then have "is_digit (digit_char n)" by (rule digit_char_digit)
    then show ?thesis unfolding string_of_nat_small [OF True] by simp
  next
    case False
    have "n mod 10 < 10" by simp
    then have "is_digit (digit_char (n mod 10))" by (rule digit_char_digit)
    moreover from False 1 have "list_all is_digit (string_of_nat (n div 10))" by simp
    ultimately show ?thesis unfolding string_of_nat_large [OF False] by simp
  qed
qed

lemma int_of_digits_snoc: "int_of_digits (s @ [c]) = 10 * int_of_digits s + (of_char c - 48)"
  by (simp add: int_of_digits_def)

lemma int_of_digits_string_of_nat: "int_of_digits (string_of_nat n) = int n"
proof (induction n rule: string_of_nat.induct)
  case (1 n)
  show ?case
  proof (cases "n < 10")
    case True
    have "of_char (digit_char n) = 48 + int n" using True by (rule digit_char_value)
    then show ?thesis
      unfolding string_of_nat_small [OF True] by (simp add: int_of_digits_def)
  next
    case False
    have m: "n mod 10 < 10" by simp
    from False 1 have ih: "int_of_digits (string_of_nat (n div 10)) = int (n div 10)" by simp
    have "int_of_digits (string_of_nat n) = 10 * int (n div 10) + int (n mod 10)"
      unfolding string_of_nat_large [OF False] int_of_digits_snoc ih digit_char_value [OF m]
      by simp
    also have "\<dots> = int (10 * (n div 10) + n mod 10)"
      by (simp only: of_nat_add of_nat_mult of_nat_numeral)
    also have "10 * (n div 10) + n mod 10 = n" by (rule mult_div_mod_eq)
    finally show ?thesis .
  qed
qed

lemma string_of_nat_inj: "string_of_nat m = string_of_nat n \<Longrightarrow> m = n"
proof -
  assume "string_of_nat m = string_of_nat n"
  then have "int_of_digits (string_of_nat m) = int_of_digits (string_of_nat n)" by simp
  then show "m = n" unfolding int_of_digits_string_of_nat by simp
qed

lemma lastField_id:
  "lastField (p @ ''-'' @ string_of_nat k) = string_of_nat k"
proof -
  have nd: "\<not> is_digit (CHR ''-'')" by (simp add: is_digit_def)
  have "\<forall>c \<in> set (string_of_nat k). is_digit c"
    using string_of_nat_digits [of k] by (simp only: list_all_iff)
  with nd have all: "\<And>c. c \<in> set (rev (string_of_nat k)) \<Longrightarrow> c \<noteq> CHR ''-''"
    by (metis set_rev)
  have "takeWhile (\<lambda>c. c \<noteq> CHR ''-'') (rev (string_of_nat k) @ CHR ''-'' # rev p) =
        rev (string_of_nat k) @ takeWhile (\<lambda>c. c \<noteq> CHR ''-'') (CHR ''-'' # rev p)"
    using all by (rule takeWhile_append2)
  also have "\<dots> = rev (string_of_nat k)" by simp
  finally have "takeWhile (\<lambda>c. c \<noteq> CHR ''-'') (rev (p @ ''-'' @ string_of_nat k)) =
        rev (string_of_nat k)" by simp
  then show ?thesis unfolding lastField_def by simp
qed

lemma layerLoop_stop:
  "\<not> (int i < tpl \<and> ti < length tys) \<Longrightarrow>
   layerLoop TS tys z tpl i (tiles, rng, ti) = (tiles, rng, ti)"
  by (cases "int i < tpl") (simp_all add: layerLoop.simps [of _ _ _ _ i])

lemma layerLoop_unfold:
  assumes "int i < tpl" "ti < length tys"
  shows "\<exists>x y r.
           layerLoop TS tys z tpl i (tiles, rng, ti) =
           layerLoop TS tys z tpl (i + 1)
             (tiles @ [\<lparr>tile_id = ''tile-'' @ string_of_nat z @ ''-'' @ string_of_nat i @ ''-''
                          @ string_of_nat ti,
                        tile_type = tys ! ti, tile_x = x, tile_y = y, tile_z = int z,
                        tile_status = Board, addedAt = None\<rparr>], r, ti + 1)"
  using assms
  by (subst layerLoop.simps) (simp add: Let_def split: prod.splits, blast)

lemma layerLoop_step:
  assumes "int i < tpl" "ti < length tys"
  shows "\<exists>t r. tile_type t = tys ! ti \<and> tile_status t = Board \<and>
           lastField (tile_id t) = string_of_nat ti \<and>
           layerLoop TS tys z tpl i (tiles, rng, ti) =
           layerLoop TS tys z tpl (i + 1) (tiles @ [t], r, ti + 1)"
proof -
  from layerLoop_unfold [OF assms, of TS z tiles rng]
  obtain x y r where
    "layerLoop TS tys z tpl i (tiles, rng, ti) =
     layerLoop TS tys z tpl (i + 1)
       (tiles @ [\<lparr>tile_id = ''tile-'' @ string_of_nat z @ ''-'' @ string_of_nat i @ ''-''
                    @ string_of_nat ti,
                  tile_type = tys ! ti, tile_x = x, tile_y = y, tile_z = int z,
                  tile_status = Board, addedAt = None\<rparr>], r, ti + 1)"
    by blast
  moreover have "lastField ((''tile-'' @ string_of_nat z @ ''-'' @ string_of_nat i) @ ''-''
                    @ string_of_nat ti) = string_of_nat ti"
    by (rule lastField_id)
  ultimately show ?thesis
    by (intro exI [of _ "\<lparr>tile_id = ''tile-'' @ string_of_nat z @ ''-'' @ string_of_nat i @ ''-''
                    @ string_of_nat ti,
                  tile_type = tys ! ti, tile_x = x, tile_y = y, tile_z = int z,
                  tile_status = Board, addedAt = None\<rparr>"] exI [of _ r]) simp
qed

lemma placed_step:
  assumes "placed tys tiles ti" "ti < length tys"
    and "tile_type t = tys ! ti" "tile_status t = Board"
    and "lastField (tile_id t) = string_of_nat ti"
  shows "placed tys (tiles @ [t]) (ti + 1)"
  using assms unfolding placed_def by (simp add: take_Suc_conv_app_nth)

lemma layerLoop_result:
  assumes "placed tys tiles ti"
  shows "\<exists>tiles' r'.
           layerLoop TS tys z tpl i (tiles, rng, ti) =
             (tiles', r', min (ti + nat (tpl - int i)) (length tys)) \<and>
           placed tys tiles' (min (ti + nat (tpl - int i)) (length tys))"
  using assms
proof (induction "nat (tpl - int i)" arbitrary: i tiles rng ti)
  case 0
  then have "\<not> (int i < tpl \<and> ti < length tys)" by simp
  moreover from 0 have "min (ti + nat (tpl - int i)) (length tys) = ti"
    unfolding placed_def by simp
  ultimately show ?case using layerLoop_stop [of i tpl ti tys TS z tiles rng] 0(2) by simp
next
  case (Suc n)
  from Suc.prems have le: "ti \<le> length tys" unfolding placed_def by simp
  show ?case
  proof (cases "ti < length tys")
    case False
    with le have eq: "min (ti + nat (tpl - int i)) (length tys) = ti" by simp
    from False have "\<not> (int i < tpl \<and> ti < length tys)" by simp
    from layerLoop_stop [OF this] Suc.prems show ?thesis unfolding eq by simp
  next
    case True
    from Suc.hyps have lt: "int i < tpl" by linarith
    from layerLoop_step [OF lt True, of TS z tiles rng]
    obtain t r where t: "tile_type t = tys ! ti" "tile_status t = Board"
        "lastField (tile_id t) = string_of_nat ti"
      and step: "layerLoop TS tys z tpl i (tiles, rng, ti) =
                 layerLoop TS tys z tpl (i + 1) (tiles @ [t], r, ti + 1)"
      by blast
    have n: "n = nat (tpl - int (i + 1))" using Suc.hyps by linarith
    have p: "placed tys (tiles @ [t]) (ti + 1)"
      using Suc.prems True t by (rule placed_step)
    have idx: "min (ti + 1 + nat (tpl - int (i + 1))) (length tys) =
               min (ti + nat (tpl - int i)) (length tys)"
      using lt by (simp add: nat_diff_distrib)
    from Suc.hyps(1) [OF n p, of r] show ?thesis
      unfolding step idx .
  qed
qed

lemma layersLoop_result:
  assumes "placed tys tiles ti"
  shows "\<exists>tiles' r'.
           layersLoop TS tys layers tpl z (tiles, rng, ti) =
             (tiles', r', min (ti + nat (layers - int z) * nat tpl) (length tys)) \<and>
           placed tys tiles' (min (ti + nat (layers - int z) * nat tpl) (length tys))"
  using assms
proof (induction "nat (layers - int z)" arbitrary: z tiles rng ti)
  case 0
  then have "\<not> int z < layers" by simp
  then have "layersLoop TS tys layers tpl z (tiles, rng, ti) = (tiles, rng, ti)"
    by (simp add: layersLoop.simps [of _ _ _ _ z])
  moreover from 0 have "min (ti + nat (layers - int z) * nat tpl) (length tys) = ti"
    unfolding placed_def by simp
  ultimately show ?case using 0(2) by simp
next
  case (Suc n)
  from Suc.hyps have lt: "int z < layers" by linarith
  define ti1 where "ti1 = min (ti + nat (tpl - int 0)) (length tys)"
  from layerLoop_result [OF Suc.prems, of TS z tpl 0 rng]
  obtain tiles1 r1 where l1: "layerLoop TS tys z tpl 0 (tiles, rng, ti) = (tiles1, r1, ti1)"
    and p1: "placed tys tiles1 ti1"
    unfolding ti1_def by blast
  have n: "n = nat (layers - int (z + 1))" using Suc.hyps by linarith
  have step: "layersLoop TS tys layers tpl z (tiles, rng, ti) =
              layersLoop TS tys layers tpl (z + 1) (tiles1, r1, ti1)"
    using lt l1 by (subst layersLoop.simps) simp
  have "nat (layers - int z) = Suc (nat (layers - int (z + 1)))" using lt by linarith
  then have "nat (layers - int z) * nat tpl = nat tpl + nat (layers - int (z + 1)) * nat tpl"
    by simp
  then have idx: "min (ti1 + nat (layers - int (z + 1)) * nat tpl) (length tys) =
             min (ti + nat (layers - int z) * nat tpl) (length tys)"
    unfolding ti1_def by (simp add: min_def)
  from Suc.hyps(1) [OF n p1, of r1] show ?case
    unfolding step idx .
qed

lemma layers_cover:
  assumes "0 < layers"
  shows "n \<le> nat layers * nat \<lceil>(of_nat n :: rat) / of_int layers\<rceil>"
proof -
  define c where "c = \<lceil>(of_nat n :: rat) / of_int layers\<rceil>"
  have "(of_nat n :: rat) / of_int layers \<le> of_int c" unfolding c_def by (rule le_of_int_ceiling)
  with assms have "(of_nat n :: rat) \<le> of_int c * of_int layers"
    by (simp add: pos_divide_le_eq)
  then have "(of_int (int n) :: rat) \<le> of_int (c * layers)" by simp
  then have le: "int n \<le> c * layers" by (simp only: of_int_le_iff)
  have "0 \<le> (of_nat n :: rat) / of_int layers" using assms by simp
  then have "0 \<le> c" unfolding c_def by (simp add: zero_le_ceiling)
  have "int (nat layers * nat c) = layers * c" using assms \<open>0 \<le> c\<close> by simp
  with le have "int n \<le> int (nat layers * nat c)" by (simp add: mult.commute)
  then have "n \<le> nat layers * nat c" by (simp only: of_nat_le_iff)
  then show ?thesis unfolding c_def .
qed

lemma generateLevel_body_placed:
  assumes "1 \<le> L"
  shows "placed (shuffledTypes TT L rng) (generateLevel_body TT TS L rng)
           (length (shuffledTypes TT L rng))"
proof -
  obtain filled rng1 where f:
    "fillTypes (nat (numSets L)) (js_slice0 TT (min (3 + L * 2) (int (length TT)))) rng []
       = (filled, rng1)"
    by (metis surj_pair)
  obtain tys rng2 where s: "shuffleLoop (length filled - 1) filled rng1 = (tys, rng2)"
    by (metis surj_pair)
  define layers where "layers = min (3 + L * 2) 12"
  define tpl where "tpl = \<lceil>(of_nat (length tys) :: rat) / of_int layers\<rceil>"
  have pos: "0 < layers" unfolding layers_def using assms by simp
  have cover: "min (0 + nat (layers - int 0) * nat tpl) (length tys) = length tys"
    using layers_cover [OF pos, of "length tys"] unfolding tpl_def by simp
  have "placed tys [] 0" unfolding placed_def by simp
  from layersLoop_result [OF this, of TS layers tpl 0 rng2]
  obtain tiles' r' where l: "layersLoop TS tys layers tpl 0 ([], rng2, 0) = (tiles', r', length tys)"
    and p: "placed tys tiles' (length tys)"
    unfolding cover by auto
  have g: "generateLevel_body TT TS L rng = tiles'"
    unfolding generateLevel_body_def using f s l by (simp add: Let_def layers_def tpl_def)
  have "shuffledTypes TT L rng = tys" unfolding shuffledTypes_def using f s by simp
  with g p show ?thesis by simp
qed

lemma generateLevel_body_types:
  assumes "1 \<le> L"
  shows "map tile_type (generateLevel_body TT TS L rng) = shuffledTypes TT L rng \<and>
         (\<forall>t \<in> set (generateLevel_body TT TS L rng). tile_status t = Board)"
  using generateLevel_body_placed [OF assms, where TT = TT and TS = TS and rng = rng]
  unfolding placed_def by (simp add: list_all_iff)

lemma string_of_nat_distinct: "distinct (map string_of_nat [0..<n])"
  by (simp add: distinct_map inj_on_def) (metis string_of_nat_inj)

text \<open>The ids of a generated level are pairwise distinct, and neither the click handler
  nor the match step changes an id: every collection the game holds satisfies the
  distinctness that the theorems on the resolver and the slot logic assume.\<close>

lemma generateLevel_ids_distinct:
  assumes "1 \<le> L"
  shows "distinct (map tile_id (generateLevel TT TS L))"
proof -
  define tiles where "tiles = generateLevel TT TS L"
  define n where "n = length (shuffledTypes TT L (new_SeededRandom (L + 1000)))"
  have "map (\<lambda>t. lastField (tile_id t)) tiles = map string_of_nat [0..<n]"
    using generateLevel_body_placed
      [OF assms, where TT = TT and TS = TS and rng = "new_SeededRandom (L + 1000)"]
    unfolding placed_def tiles_def n_def generateLevel_def Let_def by simp
  then have "map lastField (map tile_id tiles) = map string_of_nat [0..<n]"
    by (simp add: comp_def)
  then have "distinct (map lastField (map tile_id tiles))"
    using string_of_nat_distinct [of n] by simp
  then show ?thesis unfolding tiles_def by (simp only: distinct_map)
qed

lemma shuffledTypes_mset:
  "mset (shuffledTypes TT L rng) =
   mset (fst (fillTypes (nat (numSets L))
               (js_slice0 TT (min (3 + L * 2) (int (length TT)))) rng []))"
proof -
  obtain filled rng1 where f:
    "fillTypes (nat (numSets L)) (js_slice0 TT (min (3 + L * 2) (int (length TT)))) rng []
       = (filled, rng1)"
    by (metis surj_pair)
  have "shuffledTypes TT L rng = fst (shuffleLoop (length filled - 1) filled rng1)"
    unfolding shuffledTypes_def f by simp
  then show ?thesis unfolding f by (simp only: shuffle_mset fst_conv)
qed

lemma shuffledTypes_length: "length (shuffledTypes TT L rng) = 3 * nat (numSets L)"
proof -
  have "length (shuffledTypes TT L rng) = size (mset (shuffledTypes TT L rng))" by simp
  also have "\<dots> = 3 * nat (numSets L)"
    unfolding shuffledTypes_mset by (simp add: fillTypes_length)
  finally show ?thesis .
qed

lemma generateLevel_length_aux:
  assumes "1 \<le> L"
  shows "length (generateLevel TT TS L) = 3 * nat (numSets L)"
proof -
  have "length (generateLevel TT TS L) = length (map tile_type (generateLevel TT TS L))"
    by simp
  also have "\<dots> = 3 * nat (numSets L)"
    unfolding generateLevel_def Let_def
    using generateLevel_body_types [OF assms] by (simp add: shuffledTypes_length)
  finally show ?thesis .
qed

lemma filter_type_count:
  "length (filter (\<lambda>t. tile_type t = ty) ts) = count (mset (map tile_type ts)) ty"
  by (induction ts) simp_all



text \<open>
  C2 (the seeded generator). \<open>generateLevel\<close> runs its body with a generator whose state
  is \<open>level + 1000\<close>, and for \<open>1 \<le> level\<close> and \<open>level + 1000 < 2^32\<close> that state lies in
  \<open>[0, 2^32)\<close>. From a state in \<open>[0, 2^32)\<close>, \<open>next()\<close> moves to
  \<open>(seed * 1664525 + 1013904223) mod 2^32\<close>, again in \<open>[0, 2^32)\<close>, and returns the new state
  divided by \<open>2^32\<close>, a value in \<open>[0, 1)\<close>; the intermediate value
  \<open>seed * 1664525 + 1013904223\<close> is a non-negative integer below \<open>2^53\<close>, the range in which
  double precision arithmetic on integers is exact.
\<close>

theorem seededRandom_recurrence:
  assumes "0 \<le> seed rng" and "seed rng < 2 ^ 32"
  shows "generateLevel TILE_TYPES TILE_SIZE level =
           generateLevel_body TILE_TYPES TILE_SIZE level \<lparr>seed = level + 1000\<rparr> \<and>
         (1 \<le> level \<and> level + 1000 < 2 ^ 32 \<longrightarrow>
            0 \<le> seed (new_SeededRandom (level + 1000)) \<and>
            seed (new_SeededRandom (level + 1000)) < 2 ^ 32) \<and>
         seed (snd (SeededRandom_next rng)) = (seed rng * 1664525 + 1013904223) mod 2 ^ 32 \<and>
         fst (SeededRandom_next rng) = of_int (seed (snd (SeededRandom_next rng))) / 2 ^ 32 \<and>
         0 \<le> fst (SeededRandom_next rng) \<and> fst (SeededRandom_next rng) < 1 \<and>
         0 \<le> seed (snd (SeededRandom_next rng)) \<and> seed (snd (SeededRandom_next rng)) < 2 ^ 32 \<and>
         0 \<le> seed rng * 1664525 + 1013904223 \<and> seed rng * 1664525 + 1013904223 < 2 ^ 53"
proof -
  have g: "generateLevel TILE_TYPES TILE_SIZE level =
           generateLevel_body TILE_TYPES TILE_SIZE level \<lparr>seed = level + 1000\<rparr>"
    by (simp add: generateLevel_def new_SeededRandom_def)
  have i: "1 \<le> level \<and> level + 1000 < 2 ^ 32 \<longrightarrow>
            0 \<le> seed (new_SeededRandom (level + 1000)) \<and>
            seed (new_SeededRandom (level + 1000)) < 2 ^ 32"
    by (simp add: new_SeededRandom_def)
  have nn: "0 \<le> seed rng * 1664525 + 1013904223" using assms(1) by simp
  have s: "seed (snd (SeededRandom_next rng)) = (seed rng * 1664525 + 1013904223) mod 2 ^ 32"
    unfolding next_seed using js_rem_nonneg [OF nn] by simp
  have v: "fst (SeededRandom_next rng) = of_int (seed (snd (SeededRandom_next rng))) / 2 ^ 32"
    unfolding next_value by simp
  have b: "seed (snd (SeededRandom_next rng)) < 2 ^ 32"
    unfolding s by simp
  have e: "seed rng * 1664525 + 1013904223 < 2 ^ 53"
    using assms(2) by simp
  show ?thesis
    using g i s v b e nn next_nonneg [OF assms(1)] next_less_one [of rng] by blast
qed

theorem seededRandom_recurrence_witness:
  "0 \<le> seed (new_SeededRandom 1001) \<and> seed (new_SeededRandom 1001) < 2 ^ 32 \<and>
   seed (snd (SeededRandom_next (new_SeededRandom 1001))) = 2680093748 \<and>
   fst (SeededRandom_next (new_SeededRandom 1001)) = 670023437 / 1073741824"
  using seededRandom_recurrence [of "new_SeededRandom 1001"]
  by (simp add: new_SeededRandom_def SeededRandom_next_def js_rem_def Let_def)

text \<open>
  C4 (tile count). For every level \<open>L \<ge> 1\<close> the generated sequence has exactly
  \<open>3 * min (numSets L) 60\<close> tiles, with \<open>numSets\<close> 4 at level 1, 15 at level 2 and
  \<open>15 + (L - 2) * 5\<close> above; so it never has more than 180.
\<close>

theorem generateLevel_length:
  assumes "1 \<le> L"
  shows "int (length (generateLevel TILE_TYPES TILE_SIZE L)) =
           3 * min (if L = 1 then 4 else if L = 2 then 15 else 15 + (L - 2) * 5) 60 \<and>
         length (generateLevel TILE_TYPES TILE_SIZE L) \<le> 180"
proof -
  have len: "length (generateLevel TILE_TYPES TILE_SIZE L) = 3 * nat (numSets L)"
    using assms by (rule generateLevel_length_aux)
  have n: "numSets L = min (if L = 1 then 4 else if L = 2 then 15 else 15 + (L - 2) * 5) 60"
    using assms by (simp add: numSets_def Let_def)
  have "0 \<le> numSets L" "numSets L \<le> 60" using assms by (simp_all add: numSets_def Let_def)
  with len n show ?thesis by simp
qed

theorem generateLevel_length_witness:
  "(1::int) \<le> 3 \<and> length (generateLevel [''a'', ''b'', ''c''] 40 3) = 60"
  using generateLevel_length [of 3 "[''a'', ''b'', ''c'']" 40] by simp

text \<open>
  C5 (type-triple invariant). For every level \<open>L \<ge> 1\<close> and every type, the number of
  generated tiles of that type is a multiple of 3; with a non-empty catalogue every
  generated type is a catalogue entry.
\<close>

theorem generateLevel_type_triples:
  assumes "1 \<le> L" and "TILE_TYPES \<noteq> []"
  shows "3 dvd length (filter (\<lambda>t. tile_type t = ty) (generateLevel TILE_TYPES TILE_SIZE L)) \<and>
         tile_type ` set (generateLevel TILE_TYPES TILE_SIZE L) \<subseteq> set TILE_TYPES"
proof -
  define rng where "rng = new_SeededRandom (L + 1000)"
  define av where "av = js_slice0 TILE_TYPES (min (3 + L * 2) (int (length TILE_TYPES)))"
  have types: "map tile_type (generateLevel TILE_TYPES TILE_SIZE L) = shuffledTypes TILE_TYPES L rng"
    unfolding generateLevel_def Let_def rng_def
    using generateLevel_body_types [OF assms(1)] by simp
  have ms: "mset (shuffledTypes TILE_TYPES L rng) = mset (fst (fillTypes (nat (numSets L)) av rng []))"
    unfolding av_def by (rule shuffledTypes_mset)
  have "3 dvd count (mset (fst (fillTypes (nat (numSets L)) av rng []))) ty"
    by (rule fillTypes_triples) simp
  then have c: "3 dvd length (filter (\<lambda>t. tile_type t = ty) (generateLevel TILE_TYPES TILE_SIZE L))"
    unfolding filter_type_count types ms .
  define k where "k = nat (min (3 + L * 2) (int (length TILE_TYPES)))"
  have "0 < length TILE_TYPES" using assms(2) by simp
  then have k: "0 < k" unfolding k_def using assms(1) by simp
  have "av = take k TILE_TYPES" unfolding av_def js_slice0_def k_def using assms(1) by simp
  with k assms(2) have av_ne: "av \<noteq> []" and av_sub: "set av \<subseteq> set TILE_TYPES"
    by (auto dest: in_set_takeD)
  have "0 \<le> seed rng" unfolding rng_def new_SeededRandom_def using assms(1) by simp
  from fillTypes_from_palette [OF av_ne this, of "[]" "nat (numSets L)"]
  have "set (fst (fillTypes (nat (numSets L)) av rng [])) \<subseteq> set av" by simp
  then have "set_mset (mset (shuffledTypes TILE_TYPES L rng)) \<subseteq> set av"
    unfolding ms by simp
  then have "set (map tile_type (generateLevel TILE_TYPES TILE_SIZE L)) \<subseteq> set av"
    unfolding types by simp
  with av_sub have "tile_type ` set (generateLevel TILE_TYPES TILE_SIZE L) \<subseteq> set TILE_TYPES"
    by auto
  with c show ?thesis by simp
qed

theorem generateLevel_type_triples_witness:
  "(1::int) \<le> 1 \<and> [''a'', ''b'', ''c''] \<noteq> [] \<and>
   3 dvd length (filter (\<lambda>t. tile_type t = ''a'') (generateLevel [''a'', ''b'', ''c''] 40 1))"
  using generateLevel_type_triples [of 1 "[''a'', ''b'', ''c'']" "''a''" 40] by simp

section \<open>Properties of the counting objects\<close>

lemma obj_get_set: "obj_get (obj_set acc k v) k' = (if k' = k then Some v else obj_get acc k')"
  by (induction acc) auto

lemma obj_set_keys: "fst ` set (obj_set acc k v) = insert k (fst ` set acc)"
proof (induction acc)
  case Nil
  then show ?case by simp
next
  case (Cons a acc)
  obtain k' v' where a: "a = (k', v')" by (cases a)
  show ?case
  proof (cases "k' = k")
    case True
    with a show ?thesis by simp
  next
    case False
    with a Cons show ?thesis by (simp add: insert_commute)
  qed
qed

lemma obj_get_None_iff: "obj_get acc k = None \<longleftrightarrow> k \<notin> fst ` set acc"
proof (induction acc)
  case Nil
  then show ?case by simp
next
  case (Cons a acc)
  obtain k' v' where a: "a = (k', v')" by (cases a)
  with Cons show ?case by (cases "k' = k") simp_all
qed



lemma countType_count:
  "countOr0 (countType acc t) k = countOr0 acc k + (if tile_type t = k then 1 else 0)"
  by (auto simp: countOr0_def countType_def obj_get_set)

lemma countType_keys: "fst ` set (countType acc t) = insert (tile_type t) (fst ` set acc)"
  by (simp add: countType_def obj_set_keys)


lemma foldl_countType_count:
  "countOr0 (foldl countType acc ts) k =
   countOr0 acc k + length (filter (\<lambda>t. tile_type t = k) ts)"
  by (induction ts arbitrary: acc) (simp_all add: countType_count)

lemma foldl_countType_keys:
  "fst ` set (foldl countType acc ts) = fst ` set acc \<union> tile_type ` set ts"
  by (induction ts arbitrary: acc) (simp_all add: countType_keys)


lemma typeCountOf_get:
  "obj_get (typeCountOf ts) k =
     (if k \<in> tile_type ` set ts then Some (length (filter (\<lambda>t. tile_type t = k) ts)) else None)"
proof (cases "k \<in> tile_type ` set ts")
  case False
  then have "k \<notin> fst ` set (typeCountOf ts)"
    unfolding typeCountOf_def foldl_countType_keys by simp
  with False show ?thesis by (simp add: obj_get_None_iff)
next
  case True
  then have "k \<in> fst ` set (typeCountOf ts)"
    unfolding typeCountOf_def foldl_countType_keys by simp
  then obtain c where c: "obj_get (typeCountOf ts) k = Some c"
    using obj_get_None_iff [of "typeCountOf ts" k] by (cases "obj_get (typeCountOf ts) k") auto
  have "countOr0 (typeCountOf ts) k = length (filter (\<lambda>t. tile_type t = k) ts)"
    unfolding typeCountOf_def foldl_countType_count by (simp add: countOr0_def)
  with c True show ?thesis by (simp add: countOr0_def)
qed




lemma slotCount_filter:
  "slotCount tiles ty =
   length (filter (\<lambda>t. tile_type t = ty) (filter (\<lambda>t. tile_status t = Slot) tiles))"
  unfolding slotCount_def by (simp add: conj_commute)


section \<open>Properties of the slot logic\<close>

lemma lastSlotBoard_distinct: "distinct (map tile_id lastSlotBoard)"
  by (simp add: lastSlotBoard_def mkTile_def)






lemma find_distinct:
  assumes "distinct (map f xs)" "i < length xs"
  shows "find (\<lambda>t. f t = f (xs ! i)) xs = Some (xs ! i)"
proof -
  have "\<forall>j < i. f (xs ! j) \<noteq> f (xs ! i)"
    using assms by (metis (no_types, lifting) length_map less_trans nat_neq_iff nth_eq_iff_index_eq nth_map)
  with assms(2) show ?thesis unfolding find_Some_iff by blast
qed

lemma map_update_distinct:
  assumes "distinct (map f xs)" "i < length xs"
  shows "map (\<lambda>t. if f t = f (xs ! i) then g t else t) xs = xs[i := g (xs ! i)]"
proof (rule nth_equalityI)
  show "length (map (\<lambda>t. if f t = f (xs ! i) then g t else t) xs) = length (xs[i := g (xs ! i)])"
    by simp
next
  fix j assume "j < length (map (\<lambda>t. if f t = f (xs ! i) then g t else t) xs)"
  then have j: "j < length xs" by simp
  have "f (xs ! j) = f (xs ! i) \<longleftrightarrow> j = i"
    using assms j by (metis length_map nth_eq_iff_index_eq nth_map)
  with j show "map (\<lambda>t. if f t = f (xs ! i) then g t else t) xs ! j = xs[i := g (xs ! i)] ! j"
    by (simp add: nth_list_update)
qed


text \<open>The two outcomes of the click handler on a collection with distinct ids.\<close>

lemma handleTileClick_cases:
  assumes "distinct (map tile_id prev)"
  shows "(\<exists>i < length prev.
            gs = Playing \<and> tile_id (prev ! i) = tile_id tile \<and> tile_status (prev ! i) = Board \<and>
            isTileClickable TS (prev ! i) prev \<and>
            int (length (filter (\<lambda>t. tile_status t = Slot) prev)) < S \<and>
            handleTileClick S TS gs now tile prev =
              prev[i := (prev ! i)\<lparr>tile_status := Slot, addedAt := Some now\<rparr>]) \<or>
         (handleTileClick S TS gs now tile prev = prev \<and>
          \<not> (\<exists>i < length prev.
                gs = Playing \<and> tile_id (prev ! i) = tile_id tile \<and>
                tile_status (prev ! i) = Board \<and> isTileClickable TS (prev ! i) prev \<and>
                int (length (filter (\<lambda>t. tile_status t = Slot) prev)) < S))"
proof (cases "\<exists>i < length prev. tile_id (prev ! i) = tile_id tile")
  case False
  then have "find (\<lambda>t. tile_id t = tile_id tile) prev = None"
    unfolding find_None_iff by (metis in_set_conv_nth)
  with False show ?thesis by (auto simp: handleTileClick_def)
next
  case True
  then obtain i where i: "i < length prev" "tile_id (prev ! i) = tile_id tile" by blast
  have uniq: "j = i" if "j < length prev" "tile_id (prev ! j) = tile_id tile" for j
    using that i assms by (metis length_map nth_eq_iff_index_eq nth_map)
  have f: "find (\<lambda>t. tile_id t = tile_id tile) prev = Some (prev ! i)"
    using find_distinct [OF assms i(1)] i(2) by simp
  have m: "map (\<lambda>t. if tile_id t = tile_id tile
                     then t\<lparr>tile_status := Slot, addedAt := Some now\<rparr> else t) prev =
           prev[i := (prev ! i)\<lparr>tile_status := Slot, addedAt := Some now\<rparr>]"
    using map_update_distinct [OF assms i(1), of "\<lambda>t. t\<lparr>tile_status := Slot, addedAt := Some now\<rparr>"] i(2)
    by simp
  show ?thesis
  proof (cases "gs = Playing \<and> tile_status (prev ! i) = Board \<and> isTileClickable TS (prev ! i) prev \<and>
                int (length (filter (\<lambda>t. tile_status t = Slot) prev)) < S")
    case True
    then have "handleTileClick S TS gs now tile prev =
               prev[i := (prev ! i)\<lparr>tile_status := Slot, addedAt := Some now\<rparr>]"
      using f m by (simp add: handleTileClick_def Let_def)
    with True i show ?thesis by blast
  next
    case False
    then have "handleTileClick S TS gs now tile prev = prev"
      using f by (auto simp: handleTileClick_def Let_def)
    moreover have "\<not> (\<exists>j < length prev.
                gs = Playing \<and> tile_id (prev ! j) = tile_id tile \<and>
                tile_status (prev ! j) = Board \<and> isTileClickable TS (prev ! j) prev \<and>
                int (length (filter (\<lambda>t. tile_status t = Slot) prev)) < S)"
      using False uniq by blast
    ultimately show ?thesis by blast
  qed
qed

lemma update_slot_neq:
  assumes "i < length prev" "tile_status (prev ! i) = Board"
  shows "prev[i := (prev ! i)\<lparr>tile_status := Slot, addedAt := a\<rparr>] \<noteq> prev"
proof
  assume "prev[i := (prev ! i)\<lparr>tile_status := Slot, addedAt := a\<rparr>] = prev"
  then have "prev[i := (prev ! i)\<lparr>tile_status := Slot, addedAt := a\<rparr>] ! i = prev ! i" by simp
  with assms(1) have "(prev ! i)\<lparr>tile_status := Slot, addedAt := a\<rparr> = prev ! i" by simp
  then have "tile_status ((prev ! i)\<lparr>tile_status := Slot, addedAt := a\<rparr>) = tile_status (prev ! i)"
    by simp
  with assms(2) show False by simp
qed

text \<open>
  C8 (click acceptance frame). On a collection with distinct ids: the handler changes
  the collection only when the game is playing and the tile with the clicked id has board
  status, is clickable and the slot is below capacity; then exactly that tile is replaced
  by itself with status slot and \<open>addedAt\<close> set, all other positions staying as they are;
  otherwise the collection is returned as it is, and a second click on the result changes
  nothing.
\<close>

theorem handleTileClick_frame:
  assumes "distinct (map tile_id prev)"
  shows "(handleTileClick S TS gs now tile prev \<noteq> prev \<longrightarrow>
            gs = Playing \<and>
            (\<exists>i < length prev.
               tile_id (prev ! i) = tile_id tile \<and> tile_status (prev ! i) = Board \<and>
               isTileClickable TS (prev ! i) prev \<and>
               int (length (filter (\<lambda>t. tile_status t = Slot) prev)) < S)) \<and>
         (\<forall>i < length prev.
            gs = Playing \<and> tile_id (prev ! i) = tile_id tile \<and> tile_status (prev ! i) = Board \<and>
            isTileClickable TS (prev ! i) prev \<and>
            int (length (filter (\<lambda>t. tile_status t = Slot) prev)) < S \<longrightarrow>
            handleTileClick S TS gs now tile prev =
              prev[i := (prev ! i)\<lparr>tile_status := Slot, addedAt := Some now\<rparr>] \<and>
            handleTileClick S TS gs now tile prev \<noteq> prev) \<and>
         ((\<forall>i < length prev.
             tile_id (prev ! i) = tile_id tile \<longrightarrow>
             tile_status (prev ! i) \<noteq> Board \<or> \<not> isTileClickable TS (prev ! i) prev \<or>
             S \<le> int (length (filter (\<lambda>t. tile_status t = Slot) prev))) \<longrightarrow>
            handleTileClick S TS gs now tile prev = prev) \<and>
         handleTileClick S TS gs now' tile (handleTileClick S TS gs now tile prev) =
           handleTileClick S TS gs now tile prev"
proof -
  let ?acc = "\<lambda>i. gs = Playing \<and> tile_id (prev ! i) = tile_id tile \<and>
                 tile_status (prev ! i) = Board \<and> isTileClickable TS (prev ! i) prev \<and>
                 int (length (filter (\<lambda>t. tile_status t = Slot) prev)) < S"
  let ?upd = "\<lambda>i. prev[i := (prev ! i)\<lparr>tile_status := Slot, addedAt := Some now\<rparr>]"
  have uniq: "j = i"
    if "i < length prev" "j < length prev" "tile_id (prev ! j) = tile_id (prev ! i)" for i j
    using that assms by (metis length_map nth_eq_iff_index_eq nth_map)
  consider (accepted) i where "i < length prev" "?acc i"
      "handleTileClick S TS gs now tile prev = ?upd i"
    | (rejected) "handleTileClick S TS gs now tile prev = prev" "\<not> (\<exists>i < length prev. ?acc i)"
    using handleTileClick_cases [OF assms, of gs tile TS S now] by blast
  then show ?thesis
  proof cases
    case accepted
    have neq: "?upd i \<noteq> prev" using accepted(1,2) by (intro update_slot_neq) simp_all
    have same: "?upd j = ?upd i" if "j < length prev" "?acc j" for j
      using uniq [OF accepted(1) that(1)] that(2) accepted(2) by simp
    have "map tile_id (?upd i) = (map tile_id prev)[i := (map tile_id prev) ! i]"
      using accepted(1) by (simp add: map_update)
    then have "map tile_id (?upd i) = map tile_id prev" by (simp only: list_update_id)
    with assms have d': "distinct (map tile_id (?upd i))" by simp
    have "\<not> (\<exists>j < length (?upd i). gs = Playing \<and> tile_id (?upd i ! j) = tile_id tile \<and>
              tile_status (?upd i ! j) = Board \<and> isTileClickable TS (?upd i ! j) (?upd i) \<and>
              int (length (filter (\<lambda>t. tile_status t = Slot) (?upd i))) < S)"
    proof
      assume "\<exists>j < length (?upd i). gs = Playing \<and> tile_id (?upd i ! j) = tile_id tile \<and>
              tile_status (?upd i ! j) = Board \<and> isTileClickable TS (?upd i ! j) (?upd i) \<and>
              int (length (filter (\<lambda>t. tile_status t = Slot) (?upd i))) < S"
      then obtain j where j: "j < length prev" "tile_id (?upd i ! j) = tile_id tile"
        "tile_status (?upd i ! j) = Board" by auto
      show False
      proof (cases "j = i")
        case True
        with j accepted(1) show False by simp
      next
        case False
        with j have "tile_id (prev ! j) = tile_id tile" by simp
        with uniq [OF accepted(1) j(1)] accepted(2) False show False by simp
      qed
    qed
    with handleTileClick_cases [OF d', of gs tile TS S now']
    have idem: "handleTileClick S TS gs now' tile (?upd i) = ?upd i" by blast
    have c1: "handleTileClick S TS gs now tile prev \<noteq> prev \<longrightarrow>
            gs = Playing \<and>
            (\<exists>i < length prev.
               tile_id (prev ! i) = tile_id tile \<and> tile_status (prev ! i) = Board \<and>
               isTileClickable TS (prev ! i) prev \<and>
               int (length (filter (\<lambda>t. tile_status t = Slot) prev)) < S)"
      using accepted(1,2) by blast
    have c2: "\<forall>j < length prev. ?acc j \<longrightarrow>
            handleTileClick S TS gs now tile prev = ?upd j \<and>
            handleTileClick S TS gs now tile prev \<noteq> prev"
    proof (intro allI impI)
      fix j assume j: "j < length prev" "?acc j"
      from same [OF j] have "?upd j = ?upd i" .
      with accepted(3) neq
      show "handleTileClick S TS gs now tile prev = ?upd j \<and>
            handleTileClick S TS gs now tile prev \<noteq> prev" by simp
    qed
    have c3: "(\<forall>i < length prev.
             tile_id (prev ! i) = tile_id tile \<longrightarrow>
             tile_status (prev ! i) \<noteq> Board \<or> \<not> isTileClickable TS (prev ! i) prev \<or>
             S \<le> int (length (filter (\<lambda>t. tile_status t = Slot) prev))) \<longrightarrow>
            handleTileClick S TS gs now tile prev = prev"
      using accepted(1,2) by (meson not_less)
    have c4: "handleTileClick S TS gs now' tile (handleTileClick S TS gs now tile prev) =
           handleTileClick S TS gs now tile prev"
      using idem accepted(3) by simp
    from c1 c2 c3 c4 show ?thesis by (intro conjI)
  next
    case rejected
    have c1: "handleTileClick S TS gs now tile prev \<noteq> prev \<longrightarrow>
            gs = Playing \<and>
            (\<exists>i < length prev.
               tile_id (prev ! i) = tile_id tile \<and> tile_status (prev ! i) = Board \<and>
               isTileClickable TS (prev ! i) prev \<and>
               int (length (filter (\<lambda>t. tile_status t = Slot) prev)) < S)"
      using rejected(1) by simp
    have c2: "\<forall>j < length prev. ?acc j \<longrightarrow>
            handleTileClick S TS gs now tile prev = ?upd j \<and>
            handleTileClick S TS gs now tile prev \<noteq> prev"
      using rejected(2) by blast
    have c3: "(\<forall>i < length prev.
             tile_id (prev ! i) = tile_id tile \<longrightarrow>
             tile_status (prev ! i) \<noteq> Board \<or> \<not> isTileClickable TS (prev ! i) prev \<or>
             S \<le> int (length (filter (\<lambda>t. tile_status t = Slot) prev))) \<longrightarrow>
            handleTileClick S TS gs now tile prev = prev"
      using rejected(1) by simp
    have "handleTileClick S TS gs now' tile prev = prev"
      using handleTileClick_cases [OF assms, of gs tile TS S now'] rejected(2) by blast
    then have c4: "handleTileClick S TS gs now' tile (handleTileClick S TS gs now tile prev) =
           handleTileClick S TS gs now tile prev"
      using rejected(1) by simp
    from c1 c2 c3 c4 show ?thesis by (intro conjI)
  qed
qed

theorem handleTileClick_frame_witness:
  "distinct (map tile_id lastSlotBoard) \<and>
   handleTileClick 7 40 Playing 100 (lastSlotBoard ! 6) lastSlotBoard =
     lastSlotBoard[6 := (lastSlotBoard ! 6)\<lparr>tile_status := Slot, addedAt := Some 100\<rparr>] \<and>
   handleTileClick 7 40 Playing 100 (lastSlotBoard ! 6) lastSlotBoard \<noteq> lastSlotBoard \<and>
   handleTileClick 7 40 Playing 100 (lastSlotBoard ! 0) lastSlotBoard = lastSlotBoard"
proof -
  have a: "6 < length lastSlotBoard" "tile_status (lastSlotBoard ! 6) = Board"
    "int (length (filter (\<lambda>t. tile_status t = Slot) lastSlotBoard)) < 7"
    by (simp_all add: lastSlotBoard_def mkTile_def)
  have c: "isTileClickable 40 (lastSlotBoard ! 6) lastSlotBoard"
    by code_simp
  have r: "\<forall>i < length lastSlotBoard.
             tile_id (lastSlotBoard ! i) = tile_id (lastSlotBoard ! 0) \<longrightarrow>
             tile_status (lastSlotBoard ! i) \<noteq> Board \<or>
             \<not> isTileClickable 40 (lastSlotBoard ! i) lastSlotBoard \<or>
             7 \<le> int (length (filter (\<lambda>t. tile_status t = Slot) lastSlotBoard))"
    by (auto simp: lastSlotBoard_def mkTile_def less_Suc_eq numeral_eq_Suc)
  from handleTileClick_frame [OF lastSlotBoard_distinct, of 7 40 Playing 100 "lastSlotBoard ! 6" 100]
       a c
  have "handleTileClick 7 40 Playing 100 (lastSlotBoard ! 6) lastSlotBoard =
     lastSlotBoard[6 := (lastSlotBoard ! 6)\<lparr>tile_status := Slot, addedAt := Some 100\<rparr>] \<and>
   handleTileClick 7 40 Playing 100 (lastSlotBoard ! 6) lastSlotBoard \<noteq> lastSlotBoard"
    by blast
  moreover
  from handleTileClick_frame [OF lastSlotBoard_distinct, of 7 40 Playing 100 "lastSlotBoard ! 0" 100]
       r
  have "handleTileClick 7 40 Playing 100 (lastSlotBoard ! 0) lastSlotBoard = lastSlotBoard"
    by blast
  ultimately show ?thesis using lastSlotBoard_distinct by blast
qed



section \<open>Properties of the match step\<close>






lemma matchEffect_idle:
  "gs \<noteq> Playing \<or> \<not> (\<exists>ty. 3 \<le> slotCount tiles ty) \<Longrightarrow> matchEffect gs tiles = tiles"
proof (cases "gs = Playing")
  case False
  then show ?thesis by (simp add: matchEffect_def)
next
  case True
  assume "gs \<noteq> Playing \<or> \<not> (\<exists>ty. 3 \<le> slotCount tiles ty)"
  with True have no: "\<not> (\<exists>ty. 3 \<le> slotCount tiles ty)" by simp
  define S where "S = filter (\<lambda>t. tile_status t = Slot) tiles"
  have "\<not> (case obj_get (typeCountOf S) ty of None \<Rightarrow> False | Some c \<Rightarrow> 3 \<le> c)" for ty
    using no unfolding typeCountOf_get slotCount_filter S_def by auto
  then have "find (\<lambda>ty. case obj_get (typeCountOf S) ty of None \<Rightarrow> False | Some c \<Rightarrow> 3 \<le> c)
               (objectKeys (typeCountOf S)) = None"
    unfolding find_None_iff by blast
  then show ?thesis unfolding matchEffect_def Let_def S_def using True by simp
qed

lemma map_keeps_ids:
  "(\<And>t. tile_id (g t) = tile_id t) \<Longrightarrow>
   map tile_id (map (\<lambda>t. if c t then g t else t) ts) = map tile_id ts"
  by (induction ts) simp_all

lemma handleTileClick_ids:
  "map tile_id (handleTileClick S TS gs now tile prev) = map tile_id prev"
proof -
  have "map tile_id (map (\<lambda>t. if tile_id t = tile_id tile
                               then t\<lparr>tile_status := Slot, addedAt := Some now\<rparr> else t) prev)
        = map tile_id prev"
    by (rule map_keeps_ids) simp
  then show ?thesis
    unfolding handleTileClick_def Let_def by (simp split: option.splits)
qed

lemma matchEffect_ids: "map tile_id (matchEffect gs tiles) = map tile_id tiles"
proof -
  have "map tile_id (map (\<lambda>t. if tile_id t \<in> ids then t\<lparr>tile_status := Matching\<rparr> else t) tiles)
        = map tile_id tiles" for ids
    by (rule map_keeps_ids) simp
  then show ?thesis
    unfolding matchEffect_def Let_def by (simp split: option.splits)
qed



end
